theory Spec2Isabelle
  imports Main "HOL-Library.Word"
begin

unbundle bit_operations_syntax

section \<open>Data model\<close>

text \<open>
  A Python \<open>bytes\<close> object is a list of octets. A Python \<open>int\<close> is unbounded, so it is
  an \<open>int\<close>; \<open>&\<close>, \<open>|\<close>, \<open>~\<close>, \<open><<\<close> and \<open>>>\<close> on it are the two's-complement
  operations \<open>AND\<close>, \<open>OR\<close>, \<open>NOT\<close>, \<open>push_bit\<close> and \<open>drop_bit\<close> of HOL, and \<open>%\<close> with a
  positive modulus is \<open>mod\<close>. A Python \<open>str\<close> is a sequence of code points, and \<open>len\<close>
  counts code points, so it is a list of naturals.
\<close>

type_synonym byte = "8 word"
type_synonym bytes = "byte list"
type_synonym str = "nat list"

text \<open>
  Every \<open>raise\<close> of \<open>encoders.py\<close> is a \<open>ValueError\<close>; the argument of the constructor
  names the raise site by the error kind of its message: a value outside a fixed-width
  range (\<open>RangeError\<close>), an invalid string length (\<open>LengthError\<close>), a VarInt or VarLong
  that is too big (\<open>OverflowError\<close>), an invalid identifier (\<open>FormatError\<close>), and the
  interpreter's own \<open>ValueError\<close> when a tuple assignment gets the wrong number of
  parts (\<open>UnpackError\<close>). The other constructors are the exceptions of the built-ins
  the code calls: \<open>data[0]\<close> on an empty buffer (\<open>IndexError\<close>), \<open>struct.unpack\<close> on a
  buffer of the wrong length (\<open>StructError\<close>), \<open>int.to_bytes\<close> on a value that does not
  fit (\<open>ToBytesOverflow\<close>), and \<open>str.encode\<close> on a lone surrogate
  (\<open>UnicodeEncodeError\<close>).
\<close>

datatype kind = RangeError | LengthError | OverflowError | FormatError | UnpackError

datatype error = ValueError kind | IndexError | StructError | ToBytesOverflow | UnicodeEncodeError

record 'a EncoderParseResult =
  value_r :: 'a
  size_r :: nat

record Identifier =
  namespace :: str
  name :: str

record Position =
  x :: int
  y :: int
  z :: int

section \<open>Built-ins: \<open>int.from_bytes\<close> and \<open>int.to_bytes\<close>, big-endian\<close>

definition from_bytes_unsigned :: "bytes \<Rightarrow> int" where
  "from_bytes_unsigned bs = foldl (\<lambda>acc b. acc * 256 + uint b) 0 bs"

text \<open>\<open>int.from_bytes(bs, byteorder="big", signed=signed')\<close>; the empty buffer gives 0.\<close>

definition from_bytes :: "bytes \<Rightarrow> bool \<Rightarrow> int" where
  "from_bytes bs signed' =
     (let u = from_bytes_unsigned bs
      in if signed' \<and> bs \<noteq> [] \<and> 2 ^ (8 * length bs - 1) \<le> u
         then u - 2 ^ (8 * length bs) else u)"

definition big_endian :: "int \<Rightarrow> nat \<Rightarrow> bytes" where
  "big_endian v n = map (\<lambda>i. word_of_int (drop_bit (8 * i) v)) (rev [0..<n])"

text \<open>
  \<open>v.to_bytes(n, byteorder="big", signed=signed')\<close>: Python's own OverflowError when
  \<open>v\<close> does not fit into \<open>n\<close> bytes, or is negative and \<open>signed'\<close> is false.
\<close>

definition to_bytes :: "int \<Rightarrow> nat \<Rightarrow> bool \<Rightarrow> error + bytes" where
  "to_bytes v n signed' =
     (if signed'
      then (if (if n = 0 then v = 0 else - (2 ^ (8 * n - 1)) \<le> v \<and> v < 2 ^ (8 * n - 1))
            then Inr (big_endian v n) else Inl ToBytesOverflow)
      else (if 0 \<le> v \<and> v < 2 ^ (8 * n)
            then Inr (big_endian v n) else Inl ToBytesOverflow))"

section \<open>Fixed-width codecs\<close>

definition BooleanEncoder_parse :: "bytes \<Rightarrow> error + bool EncoderParseResult" where
  "BooleanEncoder_parse data =
     (case data of
        [] \<Rightarrow> Inl IndexError
      | b # _ \<Rightarrow> Inr \<lparr>value_r = (b \<noteq> 0), size_r = 1\<rparr>)"

definition BooleanEncoder_serialize :: "bool \<Rightarrow> error + bytes" where
  "BooleanEncoder_serialize value = to_bytes (if value then 1 else 0) 1 False"

definition ByteEncoder_parse :: "bytes \<Rightarrow> error + int EncoderParseResult" where
  "ByteEncoder_parse data = Inr \<lparr>value_r = from_bytes (take 1 data) True, size_r = 1\<rparr>"

definition ByteEncoder_serialize :: "int \<Rightarrow> error + bytes" where
  "ByteEncoder_serialize value =
     (if \<not> (-128 \<le> value \<and> value \<le> 127) then Inl (ValueError RangeError)
      else to_bytes value 1 True)"

definition UnsignedByteEncoder_parse :: "bytes \<Rightarrow> error + int EncoderParseResult" where
  "UnsignedByteEncoder_parse data =
     Inr \<lparr>value_r = from_bytes (take 1 data) False, size_r = 1\<rparr>"

definition UnsignedByteEncoder_serialize :: "int \<Rightarrow> error + bytes" where
  "UnsignedByteEncoder_serialize value =
     (if \<not> (0 \<le> value \<and> value \<le> 255) then Inl (ValueError RangeError)
      else to_bytes value 1 False)"

definition ShortEncoder_parse :: "bytes \<Rightarrow> error + int EncoderParseResult" where
  "ShortEncoder_parse data = Inr \<lparr>value_r = from_bytes (take 2 data) True, size_r = 2\<rparr>"

text \<open>The upper bound of the check is the source's literal \<open>23767\<close>.\<close>

definition ShortEncoder_serialize :: "int \<Rightarrow> error + bytes" where
  "ShortEncoder_serialize value =
     (if \<not> (-32768 \<le> value \<and> value \<le> 23767) then Inl (ValueError RangeError)
      else to_bytes value 2 True)"

definition UnsignedShortEncoder_parse :: "bytes \<Rightarrow> error + int EncoderParseResult" where
  "UnsignedShortEncoder_parse data =
     Inr \<lparr>value_r = from_bytes (take 2 data) False, size_r = 2\<rparr>"

definition UnsignedShortEncoder_serialize :: "int \<Rightarrow> error + bytes" where
  "UnsignedShortEncoder_serialize value =
     (if \<not> (0 \<le> value \<and> value \<le> 65535) then Inl (ValueError RangeError)
      else to_bytes value 2 False)"

definition IntEncoder_parse :: "bytes \<Rightarrow> error + int EncoderParseResult" where
  "IntEncoder_parse data = Inr \<lparr>value_r = from_bytes (take 4 data) True, size_r = 4\<rparr>"

definition IntEncoder_serialize :: "int \<Rightarrow> error + bytes" where
  "IntEncoder_serialize value =
     (if \<not> (-2147483648 \<le> value \<and> value \<le> 2147483647) then Inl (ValueError RangeError)
      else to_bytes value 4 True)"

definition LongEncoder_parse :: "bytes \<Rightarrow> error + int EncoderParseResult" where
  "LongEncoder_parse data = Inr \<lparr>value_r = from_bytes (take 8 data) True, size_r = 8\<rparr>"

definition LongEncoder_serialize :: "int \<Rightarrow> error + bytes" where
  "LongEncoder_serialize value =
     (if \<not> (-9223372036854775808 \<le> value \<and> value \<le> 9223372036854775807)
      then Inl (ValueError RangeError)
      else to_bytes value 8 True)"

text \<open>
  \<open>struct.unpack(">f", data)\<close> raises \<open>struct.error\<close> unless \<open>data\<close> has exactly 4
  bytes. The float it returns is determined by the 32 bits read, and stands here as
  that bit pattern; no arithmetic is done on it.
\<close>

definition FloatEncoder_parse :: "bytes \<Rightarrow> error + (32 word) EncoderParseResult" where
  "FloatEncoder_parse data =
     (if length data \<noteq> 4 then Inl StructError
      else Inr \<lparr>value_r = word_of_int (from_bytes_unsigned data), size_r = 4\<rparr>)"

definition DoubleEncoder_parse :: "bytes \<Rightarrow> error + (64 word) EncoderParseResult" where
  "DoubleEncoder_parse data =
     (if length data \<noteq> 8 then Inl StructError
      else Inr \<lparr>value_r = word_of_int (from_bytes_unsigned data), size_r = 8\<rparr>)"

text \<open>
  \<open>FloatEncoder.serialize\<close> and \<open>DoubleEncoder.serialize\<close> compute on floating-point
  values, \<open>JSONTextComponentEncoder\<close> wraps the String codec in \<open>json\<close>, and the
  TextComponent, EntityMetadata and Slot encoders return \<open>NotImplemented\<close>; none of
  them is used by another codec, and they are left out.
\<close>

section \<open>VarInt and VarLong\<close>

abbreviation SEGMENT_BITS :: int where "SEGMENT_BITS \<equiv> 0x7f"
abbreviation CONTINUE_BIT :: int where "CONTINUE_BIT \<equiv> 0x80"

text \<open>
  The \<open>while True\<close> loop of \<open>VarIntEncoder.parse\<close>, with its three variables as
  arguments. \<open>data[size:]\<close> past the end is the empty buffer, which \<open>ByteEncoder.parse\<close>
  reads as 0. The loop leaves through \<open>break\<close> before \<open>size\<close> is incremented.
\<close>

function VarIntEncoder_parse_loop ::
  "bytes \<Rightarrow> int \<Rightarrow> nat \<Rightarrow> nat \<Rightarrow> error + int EncoderParseResult" where
  "VarIntEncoder_parse_loop data value position size' =
     (case ByteEncoder_parse (drop size' data) of
        Inl e \<Rightarrow> Inl e
      | Inr r \<Rightarrow>
          (let current_byte = value_r r;
               value = value OR push_bit position (current_byte AND SEGMENT_BITS)
           in if current_byte AND CONTINUE_BIT = 0
              then Inr \<lparr>value_r = value, size_r = size'\<rparr>
              else if position + 7 \<ge> 32 then Inl (ValueError OverflowError)
              else VarIntEncoder_parse_loop data value (position + 7) (size' + 1)))"
  by pat_completeness auto
termination
  by (relation "measure (\<lambda>(data, value, position, size'). 32 - position)") auto

definition VarIntEncoder_parse :: "bytes \<Rightarrow> error + int EncoderParseResult" where
  "VarIntEncoder_parse data = VarIntEncoder_parse_loop data 0 0 0"

function VarLongEncoder_parse_loop ::
  "bytes \<Rightarrow> int \<Rightarrow> nat \<Rightarrow> nat \<Rightarrow> error + int EncoderParseResult" where
  "VarLongEncoder_parse_loop data value position size' =
     (case ByteEncoder_parse (drop size' data) of
        Inl e \<Rightarrow> Inl e
      | Inr r \<Rightarrow>
          (let current_byte = value_r r;
               value = value OR push_bit position (current_byte AND SEGMENT_BITS)
           in if current_byte AND CONTINUE_BIT = 0
              then Inr \<lparr>value_r = value, size_r = size'\<rparr>
              else if position + 7 \<ge> 64 then Inl (ValueError OverflowError)
              else VarLongEncoder_parse_loop data value (position + 7) (size' + 1)))"
  by pat_completeness auto
termination
  by (relation "measure (\<lambda>(data, value, position, size'). 64 - position)") auto

definition VarLongEncoder_parse :: "bytes \<Rightarrow> error + int EncoderParseResult" where
  "VarLongEncoder_parse data = VarLongEncoder_parse_loop data 0 0 0"

text \<open>
  The loop of \<open>VarIntEncoder.serialize\<close>. Each byte, also one with the continuation
  bit, goes through \<open>ByteEncoder.serialize\<close>, and the modulus is the source's literal
  \<open>0x10000000\<close>.
\<close>

lemma div128_le: "0 \<le> (u::int) \<Longrightarrow> u div 128 \<le> u"
  by presburger

lemma div128_less: "0 \<le> (u::int) \<Longrightarrow> u \<le> v \<Longrightarrow> 128 \<le> v \<Longrightarrow> u div 128 < v"
  by presburger

lemma and_not_segment_zero: "0 \<le> (v::int) \<Longrightarrow> v < 128 \<Longrightarrow> v AND NOT 0x7f = 0"
proof -
  assume a: "0 \<le> v" "v < 128"
  have m: "(0x7f::int) = mask 7" by (simp add: mask_eq_exp_minus_1)
  have "take_bit 7 v = v" using a by (simp add: take_bit_int_eq_self)
  then have "v AND mask 7 = v" by (simp add: take_bit_eq_mask)
  then have "v AND NOT (mask 7) = (v AND mask 7) AND NOT (mask 7)" by simp
  also have "\<dots> = 0" by (simp add: and.assoc)
  finally show ?thesis using m by simp
qed

lemma serialize_step_decreases:
  fixes v m :: int
  assumes c: "v AND NOT 0x7f \<noteq> 0" and m: "0 < m"
  shows "(if drop_bit 7 (v mod m) < 0 then nat m else nat (drop_bit 7 (v mod m)))
           < (if v < 0 then nat m else nat v)"
proof -
  define w where "w = drop_bit 7 (v mod m)"
  have w: "w = (v mod m) div 128" by (simp add: w_def drop_bit_eq_div)
  have u: "0 \<le> v mod m" "v mod m < m" using m by simp_all
  have nn: "0 \<le> w" using u unfolding w by simp
  have le: "w \<le> v mod m" using u(1) div128_le unfolding w by blast
  have small: "w < m" using le u by linarith
  have "(if w < 0 then nat m else nat w) < (if v < 0 then nat m else nat v)"
  proof (cases "v < 0")
    case True
    then show ?thesis using nn small by simp
  next
    case False
    then have "128 \<le> v" using c and_not_segment_zero [of v] by fastforce
    moreover have "v mod m \<le> v"
      using False m by (simp add: zmod_le_nonneg_dividend)
    ultimately have "w < v" using u(1) div128_less unfolding w by blast
    then show ?thesis using nn False by simp
  qed
  then show ?thesis by (simp only: w_def)
qed

function VarIntEncoder_serialize_loop :: "bytes \<Rightarrow> int \<Rightarrow> error + bytes" where
  "VarIntEncoder_serialize_loop data value =
     (if value AND NOT SEGMENT_BITS \<noteq> 0
      then (case ByteEncoder_serialize ((value AND SEGMENT_BITS) OR CONTINUE_BIT) of
              Inl e \<Rightarrow> Inl e
            | Inr b \<Rightarrow>
                VarIntEncoder_serialize_loop (data @ b) (drop_bit 7 (value mod 0x10000000)))
      else (case ByteEncoder_serialize value of
              Inl e \<Rightarrow> Inl e
            | Inr b \<Rightarrow> Inr (data @ b)))"
  by pat_completeness auto
termination
proof (relation "measure (\<lambda>(data, value). if value < 0 then nat 0x10000000 else nat value)")
  fix data :: bytes and "value" :: int and b :: bytes
  assume "value AND NOT SEGMENT_BITS \<noteq> 0"
  then show "((data @ b, drop_bit 7 (value mod 0x10000000)), (data, value))
         \<in> measure (\<lambda>(data, value). if value < 0 then nat 0x10000000 else nat value)"
    using serialize_step_decreases [of "value" "0x10000000"] by simp
qed simp

definition VarIntEncoder_serialize :: "int \<Rightarrow> error + bytes" where
  "VarIntEncoder_serialize value = VarIntEncoder_serialize_loop [] value"

function VarLongEncoder_serialize_loop :: "bytes \<Rightarrow> int \<Rightarrow> error + bytes" where
  "VarLongEncoder_serialize_loop data value =
     (if value AND NOT SEGMENT_BITS \<noteq> 0
      then (case ByteEncoder_serialize ((value AND SEGMENT_BITS) OR CONTINUE_BIT) of
              Inl e \<Rightarrow> Inl e
            | Inr b \<Rightarrow>
                VarLongEncoder_serialize_loop (data @ b)
                  (drop_bit 7 (value mod 0x10000000000000000)))
      else (case ByteEncoder_serialize value of
              Inl e \<Rightarrow> Inl e
            | Inr b \<Rightarrow> Inr (data @ b)))"
  by pat_completeness auto
termination
proof (relation
    "measure (\<lambda>(data, value). if value < 0 then nat 0x10000000000000000 else nat value)")
  fix data :: bytes and "value" :: int and b :: bytes
  assume "value AND NOT SEGMENT_BITS \<noteq> 0"
  then show "((data @ b, drop_bit 7 (value mod 0x10000000000000000)), (data, value))
         \<in> measure (\<lambda>(data, value).
               if value < 0 then nat 0x10000000000000000 else nat value)"
    using serialize_step_decreases [of "value" "0x10000000000000000"] by simp
qed simp

definition VarLongEncoder_serialize :: "int \<Rightarrow> error + bytes" where
  "VarLongEncoder_serialize value = VarLongEncoder_serialize_loop [] value"

section \<open>Built-ins: strict UTF-8\<close>

text \<open>
  \<open>bytes.decode("utf-8")\<close>: \<open>None\<close> is UnicodeDecodeError. A lead byte \<open>C2..DF\<close> takes
  one continuation byte, \<open>E0..EF\<close> two and \<open>F0..F4\<close> three; the first continuation byte
  is narrowed after \<open>E0\<close>, \<open>ED\<close>, \<open>F0\<close> and \<open>F4\<close> (no overlong forms, no surrogates,
  nothing above U+10FFFF).
\<close>

definition cont_lo :: "byte \<Rightarrow> byte" where
  "cont_lo b0 = (if b0 = 0xE0 then 0xA0 else if b0 = 0xF0 then 0x90 else 0x80)"

definition cont_hi :: "byte \<Rightarrow> byte" where
  "cont_hi b0 = (if b0 = 0xED then 0x9F else if b0 = 0xF4 then 0x8F else 0xBF)"

definition is_cont :: "byte \<Rightarrow> bool" where
  "is_cont b = (0x80 \<le> b \<and> b \<le> 0xBF)"

fun utf8_decode :: "bytes \<Rightarrow> str option" where
  "utf8_decode [] = Some []"
| "utf8_decode (b0 # bs) =
     (if b0 < 0x80 then map_option ((#) (unat b0)) (utf8_decode bs)
      else if 0xC2 \<le> b0 \<and> b0 \<le> 0xDF then
        (case bs of
           b1 # bs' \<Rightarrow>
             if is_cont b1
             then map_option ((#) (unat (b0 AND 0x1F) * 64 + unat (b1 AND 0x3F)))
                    (utf8_decode bs')
             else None
         | _ \<Rightarrow> None)
      else if 0xE0 \<le> b0 \<and> b0 \<le> 0xEF then
        (case bs of
           b1 # b2 # bs' \<Rightarrow>
             if cont_lo b0 \<le> b1 \<and> b1 \<le> cont_hi b0 \<and> is_cont b2
             then map_option
                    ((#) (unat (b0 AND 0x0F) * 4096 + unat (b1 AND 0x3F) * 64
                          + unat (b2 AND 0x3F)))
                    (utf8_decode bs')
             else None
         | _ \<Rightarrow> None)
      else if 0xF0 \<le> b0 \<and> b0 \<le> 0xF4 then
        (case bs of
           b1 # b2 # b3 # bs' \<Rightarrow>
             if cont_lo b0 \<le> b1 \<and> b1 \<le> cont_hi b0 \<and> is_cont b2 \<and> is_cont b3
             then map_option
                    ((#) (unat (b0 AND 0x07) * 262144 + unat (b1 AND 0x3F) * 4096
                          + unat (b2 AND 0x3F) * 64 + unat (b3 AND 0x3F)))
                    (utf8_decode bs')
             else None
         | _ \<Rightarrow> None)
      else None)"

text \<open>
  \<open>str.encode("utf-8")\<close>: a surrogate code point raises UnicodeEncodeError. A Python
  \<open>str\<close> holds no code point above U+10FFFF; the last branch is outside the type.
\<close>

fun utf8_encode_char :: "nat \<Rightarrow> error + bytes" where
  "utf8_encode_char c =
     (if c < 0x80 then Inr [of_nat c]
      else if c < 0x800 then Inr [of_nat (0xC0 + c div 64), of_nat (0x80 + c mod 64)]
      else if c < 0x10000 then
        (if 0xD800 \<le> c \<and> c \<le> 0xDFFF then Inl UnicodeEncodeError
         else Inr [of_nat (0xE0 + c div 4096), of_nat (0x80 + c div 64 mod 64),
                   of_nat (0x80 + c mod 64)])
      else if c \<le> 0x10FFFF then
        Inr [of_nat (0xF0 + c div 262144), of_nat (0x80 + c div 4096 mod 64),
             of_nat (0x80 + c div 64 mod 64), of_nat (0x80 + c mod 64)]
      else Inl UnicodeEncodeError)"

fun utf8_encode :: "str \<Rightarrow> error + bytes" where
  "utf8_encode [] = Inr []"
| "utf8_encode (c # cs) =
     (case utf8_encode_char c of
        Inl e \<Rightarrow> Inl e
      | Inr b \<Rightarrow> (case utf8_encode cs of Inl e \<Rightarrow> Inl e | Inr bs \<Rightarrow> Inr (b @ bs)))"

section \<open>String codec\<close>

text \<open>
  The \<open>for c_len in range(1, 4)\<close> of \<open>StringEncoder.parse\<close>: the first length at which
  \<open>data[i:i + c_len]\<close> decodes gives \<open>(c, c_len)\<close>; \<open>None\<close> when the \<open>for\<close> ends without
  \<open>break\<close>. A slice past the end of \<open>data\<close> is empty and decodes to the empty string.
\<close>

fun decode_attempts :: "bytes \<Rightarrow> nat \<Rightarrow> nat list \<Rightarrow> (str \<times> nat) option" where
  "decode_attempts data i [] = None"
| "decode_attempts data i (c_len # rest) =
     (case utf8_decode (take c_len (drop i data)) of
        None \<Rightarrow> decode_attempts data i rest
      | Some c \<Rightarrow> Some (c, c_len))"

text \<open>
  The \<open>while len(value) < length.value\<close> loop. It starts at \<open>i = 0\<close>, the first byte of
  \<open>data\<close>. When no attempt decodes, the loop runs again on the same state, and when
  \<open>data\<close> is used up it appends empty strings for ever: the result \<open>None\<close> is the loop
  that does not return.
\<close>

partial_function (option) StringEncoder_parse_loop ::
  "bytes \<Rightarrow> int \<Rightarrow> str \<Rightarrow> nat \<Rightarrow> str option" where
  "StringEncoder_parse_loop data n value i =
     (if int (length value) < n
      then (case decode_attempts data i [1, 2, 3] of
              None \<Rightarrow> StringEncoder_parse_loop data n value i
            | Some (c, c_len) \<Rightarrow> StringEncoder_parse_loop data n (value @ c) (i + c_len))
      else Some value)"

definition StringEncoder_parse :: "bytes \<Rightarrow> (error + str EncoderParseResult) option" where
  "StringEncoder_parse data =
     (case VarIntEncoder_parse data of
        Inl e \<Rightarrow> Some (Inl e)
      | Inr length' \<Rightarrow>
          if \<not> (0 \<le> value_r length' \<and> value_r length' \<le> 32767)
          then Some (Inl (ValueError LengthError))
          else (case StringEncoder_parse_loop data (value_r length') [] 0 of
                  None \<Rightarrow> None
                | Some value \<Rightarrow>
                    (case utf8_encode value of
                       Inl e \<Rightarrow> Some (Inl e)
                     | Inr bs \<Rightarrow>
                         Some (Inr \<lparr>value_r = value,
                                     size_r = size_r length' + length bs\<rparr>))))"

definition StringEncoder_serialize :: "str \<Rightarrow> error + bytes" where
  "StringEncoder_serialize value =
     (let length' = int (length value)
      in if \<not> (1 \<le> length' \<and> length' \<le> 32767) then Inl (ValueError LengthError)
         else (case VarIntEncoder_serialize length' of
                 Inl e \<Rightarrow> Inl e
               | Inr prefix \<Rightarrow>
                   (case utf8_encode value of
                      Inl e \<Rightarrow> Inl e
                    | Inr bs \<Rightarrow> Inr (prefix @ bs))))"

section \<open>Identifier codec\<close>

text \<open>The code points of an ASCII literal of the source.\<close>

definition lit :: "string \<Rightarrow> str" where
  "lit s = map of_char s"

text \<open>The character classes \<open>[a-z0-9_\-.]\<close> and \<open>[a-z0-9_\-./]\<close>.\<close>

definition namespace_char :: "nat \<Rightarrow> bool" where
  "namespace_char c =
     ((97 \<le> c \<and> c \<le> 122) \<or> (48 \<le> c \<and> c \<le> 57) \<or> c = 95 \<or> c = 45 \<or> c = 46)"

definition name_char :: "nat \<Rightarrow> bool" where
  "name_char c = (namespace_char c \<or> c = 47)"

text \<open>
  \<open>re.match(r"^[a-z0-9_\-.]+:[a-z0-9_\-./]+$", s)\<close>. Neither class holds \<open>:\<close> or a
  newline, so the only way to match is the longest run of each class; \<open>$\<close> matches at
  the end of the string and before a newline that ends it.
\<close>

definition identifier_match :: "str \<Rightarrow> bool" where
  "identifier_match s =
     (takeWhile namespace_char s \<noteq> [] \<and>
      (case dropWhile namespace_char s of
         [] \<Rightarrow> False
       | c # rest \<Rightarrow>
           c = 58 \<and> takeWhile name_char rest \<noteq> [] \<and>
           (dropWhile name_char rest = [] \<or> dropWhile name_char rest = [10])))"

text \<open>\<open>s.split(sep)\<close> for a separator of one character.\<close>

fun split_on :: "nat \<Rightarrow> str \<Rightarrow> str list" where
  "split_on sep [] = [[]]"
| "split_on sep (c # cs) =
     (if c = sep then [] # split_on sep cs
      else (case split_on sep cs of
              [] \<Rightarrow> [[c]]
            | p # ps \<Rightarrow> (c # p) # ps))"

definition IdentifierEncoder_parse ::
  "bytes \<Rightarrow> (error + Identifier EncoderParseResult) option" where
  "IdentifierEncoder_parse data =
     (case StringEncoder_parse data of
        None \<Rightarrow> None
      | Some (Inl e) \<Rightarrow> Some (Inl e)
      | Some (Inr string) \<Rightarrow>
          (let string =
                 (if 58 \<notin> set (value_r string)
                  then \<lparr>value_r = lit ''minecraft:'' @ value_r string,
                        size_r = size_r string + 10\<rparr>
                  else string)
           in if \<not> identifier_match (value_r string) then Some (Inl (ValueError FormatError))
              else (case split_on 58 (value_r string) of
                      [namespace', name'] \<Rightarrow>
                        Some (Inr \<lparr>value_r = \<lparr>namespace = namespace', name = name'\<rparr>,
                                    size_r = size_r string\<rparr>)
                    | _ \<Rightarrow> Some (Inl (ValueError UnpackError)))))"

definition IdentifierEncoder_serialize :: "Identifier \<Rightarrow> error + bytes" where
  "IdentifierEncoder_serialize value =
     StringEncoder_serialize (namespace value @ lit '':'' @ name value)"

section \<open>Position codec\<close>

definition PositionEncoder_parse :: "bytes \<Rightarrow> error + Position EncoderParseResult" where
  "PositionEncoder_parse data =
     Inr \<lparr>value_r =
            \<lparr>x = from_bytes (take 4 data) True AND 0xffffffc0,
             y = from_bytes (take 4 (drop 3 data)) True AND 0xffffff0,
             z = from_bytes (take 2 (drop 6 data)) True AND 0xfff\<rparr>,
          size_r = 8\<rparr>"

definition PositionEncoder_serialize :: "Position \<Rightarrow> error + bytes" where
  "PositionEncoder_serialize value =
     to_bytes ((push_bit 38 (x value) OR push_bit 12 (y value)) OR z value) 8 True"

section \<open>Angle codec\<close>

definition AngleEncoder_parse :: "bytes \<Rightarrow> error + int EncoderParseResult" where
  "AngleEncoder_parse data = UnsignedByteEncoder_parse data"

definition AngleEncoder_serialize :: "int \<Rightarrow> error + bytes" where
  "AngleEncoder_serialize value = UnsignedByteEncoder_serialize value"

section \<open>Properties\<close>

declare VarIntEncoder_parse_loop.simps [simp del]
declare VarLongEncoder_parse_loop.simps [simp del]
declare VarIntEncoder_serialize_loop.simps [simp del]
declare VarLongEncoder_serialize_loop.simps [simp del]

lemmas builtin_defs = from_bytes_def from_bytes_unsigned_def to_bytes_def big_endian_def

lemmas fixed_defs =
  ByteEncoder_parse_def ByteEncoder_serialize_def
  UnsignedByteEncoder_parse_def UnsignedByteEncoder_serialize_def
  ShortEncoder_parse_def ShortEncoder_serialize_def
  UnsignedShortEncoder_parse_def UnsignedShortEncoder_serialize_def
  IntEncoder_parse_def IntEncoder_serialize_def
  LongEncoder_parse_def LongEncoder_serialize_def

lemmas varint_defs =
  VarIntEncoder_parse_def VarIntEncoder_parse_loop.simps
  VarIntEncoder_serialize_def VarIntEncoder_serialize_loop.simps
  VarLongEncoder_parse_def VarLongEncoder_parse_loop.simps
  VarLongEncoder_serialize_def VarLongEncoder_serialize_loop.simps

lemmas string_defs =
  StringEncoder_parse_def StringEncoder_parse_loop.simps StringEncoder_serialize_def
  is_cont_def cont_lo_def cont_hi_def lit_def

subsection \<open>The continuation bit of the byte that the VarInt loops read\<close>

text \<open>The byte at index \<open>j\<close> exists and has its continuation bit set.\<close>

definition cont_at :: "bytes \<Rightarrow> nat \<Rightarrow> bool" where
  "cont_at data j = (j < length data \<and> data ! j AND 0x80 \<noteq> 0)"

lemma bit_top_iff:
  fixes u :: int
  assumes "0 \<le> u" and "u < 2 ^ Suc n"
  shows "bit u n = (2 ^ n \<le> u)"
proof -
  have u: "take_bit (Suc n) u = u" using assms by (simp add: take_bit_int_eq_self)
  have d: "take_bit (Suc n) u = 2 ^ n * of_bool (bit u n) + take_bit n u"
    by (rule take_bit_Suc_from_most)
  have r: "0 \<le> take_bit n u" "take_bit n u < 2 ^ n" by simp_all
  show ?thesis
  proof (cases "bit u n")
    case True
    then have "u = 2 ^ n + take_bit n u" using u d by simp
    then show ?thesis using True r by linarith
  next
    case False
    then have "u = take_bit n u" using u d by simp
    then show ?thesis using False r by linarith
  qed
qed

lemma signed_of_unsigned:
  fixes u :: int
  assumes "0 \<le> u" and "u < 2 ^ Suc n"
  shows "signed_take_bit n u = (if 2 ^ n \<le> u then u - 2 ^ Suc n else u)"
proof -
  have "signed_take_bit n u = take_bit (Suc n) u - 2 ^ Suc n * of_bool (bit u n)"
    by (rule signed_take_bit_eq_take_bit_minus)
  moreover have "take_bit (Suc n) u = u" using assms by (simp add: take_bit_int_eq_self)
  ultimately show ?thesis using bit_top_iff [OF assms] by simp
qed

lemma from_bytes_single: "from_bytes [b] True = sint b"
proof -
  have "uint b < 2 ^ Suc 7" using uint_lt2p [of b] by simp
  then have "signed_take_bit 7 (uint b) = (if 2 ^ 7 \<le> uint b then uint b - 2 ^ Suc 7 else uint b)"
    using signed_of_unsigned [of "uint b" 7] by simp
  then show ?thesis
    by (simp add: from_bytes_def from_bytes_unsigned_def sint_uint)
qed

lemma word_continue_bit: "(b AND 0x80 = 0) = (\<not> bit (b::byte) 7)"
  using and_exp_eq_0_iff_not_bit [of b 7] by simp

lemma sint_continue_bit: "(sint (b::byte) AND CONTINUE_BIT = 0) = (b AND 0x80 = 0)"
proof -
  have "(sint b AND 2 ^ 7 = 0) = (\<not> bit (sint b) 7)"
    by (rule and_exp_eq_0_iff_not_bit)
  also have "\<dots> = (\<not> bit b 7)" by (simp add: bit_sint_iff)
  finally show ?thesis by (simp add: word_continue_bit)
qed

lemma ByteEncoder_parse_drop:
  "ByteEncoder_parse (drop j data) =
     Inr \<lparr>value_r = (if j < length data then sint (data ! j) else 0), size_r = 1\<rparr>"
proof (cases "j < length data")
  case True
  then have "take 1 (drop j data) = [data ! j]"
    by (simp add: take_Suc_conv_app_nth)
  then show ?thesis using True by (simp add: ByteEncoder_parse_def from_bytes_single)
next
  case False
  then show ?thesis
    by (simp add: ByteEncoder_parse_def from_bytes_def from_bytes_unsigned_def)
qed

lemma continue_bit_drop:
  "((if j < length data then sint (data ! j) else 0) AND CONTINUE_BIT = 0) = (\<not> cont_at data j)"
  by (simp add: cont_at_def sint_continue_bit)

lemma cont_at_prefix:
  "(\<forall>k<n. cont_at data k) = (n \<le> length data \<and> list_all (\<lambda>b. b AND 0x80 \<noteq> 0) (take n data))"
proof (cases "n \<le> length data")
  case True
  then show ?thesis by (auto simp: cont_at_def list_all_length)
next
  case False
  then have "length data < n" "\<not> cont_at data (length data)" by (simp_all add: cont_at_def)
  then show ?thesis using False by blast
qed

subsection \<open>The VarInt loop\<close>

text \<open>
  One round of the loop, and from it by induction on the shifts that remain: the loop
  raises exactly when every byte it can still read has the continuation bit, and
  otherwise it returns a value.
\<close>

lemma VarInt_loop_step:
  "VarIntEncoder_parse_loop data v p s =
     (if \<not> cont_at data s
      then Inr \<lparr>value_r = v OR push_bit p
                     ((if s < length data then sint (data ! s) else 0) AND SEGMENT_BITS),
                size_r = s\<rparr>
      else if 32 \<le> p + 7 then Inl (ValueError OverflowError)
      else VarIntEncoder_parse_loop data
             (v OR push_bit p ((if s < length data then sint (data ! s) else 0) AND SEGMENT_BITS))
             (p + 7) (s + 1))"
  by (subst VarIntEncoder_parse_loop.simps)
     (simp add: ByteEncoder_parse_drop continue_bit_drop Let_def del: push_bit_and)

lemma VarInt_loop_overflow:
  "p < 32 \<Longrightarrow>
   (VarIntEncoder_parse_loop data v p s = Inl (ValueError OverflowError)) =
   (\<forall>k < (38 - p) div 7. cont_at data (s + k))"
proof (induction "32 - p" arbitrary: p v s rule: less_induct)
  case less
  show ?case
  proof (cases "cont_at data s")
    case False
    have "0 < (38 - p) div 7" using less.prems by presburger
    then have "\<not> (\<forall>k < (38 - p) div 7. cont_at data (s + k))"
      using False by (metis add.right_neutral)
    then show ?thesis using False by (subst VarInt_loop_step) simp
  next
    case True
    show ?thesis
    proof (cases "32 \<le> p + 7")
      case big: True
      then have "(38 - p) div 7 = Suc 0" using less.prems by presburger
      then show ?thesis using True big by (subst VarInt_loop_step) simp
    next
      case small: False
      define m where "m = (38 - (p + 7)) div 7"
      have "38 - p = 7 + (38 - (p + 7))" using small by linarith
      then have "(38 - p) div 7 = (7 + (38 - (p + 7))) div 7" by (rule arg_cong)
      then have n: "(38 - p) div 7 = Suc m" unfolding m_def by (simp only: div_add_self1)
      have "32 - (p + 7) < 32 - p" "p + 7 < 32" using small by linarith+
      then have ih: "\<And>v' s'.
          (VarIntEncoder_parse_loop data v' (p + 7) s' = Inl (ValueError OverflowError)) =
          (\<forall>k<m. cont_at data (s' + k))"
        unfolding m_def using less.hyps [of "p + 7"] by blast
      have step: "VarIntEncoder_parse_loop data v p s =
          VarIntEncoder_parse_loop data
            (v OR push_bit p ((if s < length data then sint (data ! s) else 0) AND SEGMENT_BITS))
            (p + 7) (s + 1)"
        using True small by (subst VarInt_loop_step) (simp del: push_bit_and)
      have "(\<forall>k<Suc m. cont_at data (s + k)) = (\<forall>k<m. cont_at data (s + 1 + k))"
        using True by (simp add: All_less_Suc2)
      then show ?thesis unfolding step n ih by simp
    qed
  qed
qed

lemma VarInt_loop_result:
  "p < 32 \<Longrightarrow>
   VarIntEncoder_parse_loop data v p s = Inl (ValueError OverflowError) \<or>
   (\<exists>r. VarIntEncoder_parse_loop data v p s = Inr r)"
proof (induction "32 - p" arbitrary: p v s rule: less_induct)
  case less
  show ?case
  proof (cases "\<not> cont_at data s \<or> 32 \<le> p + 7")
    case True
    then show ?thesis by (subst (1 2) VarInt_loop_step) auto
  next
    case False
    then have "\<not> 32 \<le> p + 7" by simp
    then have "32 - (p + 7) < 32 - p" "p + 7 < 32" by linarith+
    then have "\<And>v' s'.
        VarIntEncoder_parse_loop data v' (p + 7) s' = Inl (ValueError OverflowError) \<or>
        (\<exists>r. VarIntEncoder_parse_loop data v' (p + 7) s' = Inr r)"
      using less.hyps [of "p + 7"] by blast
    then show ?thesis using False by (subst (1 2) VarInt_loop_step) (simp del: push_bit_and)
  qed
qed

lemma VarInt_overflow_iff:
  "(VarIntEncoder_parse data = Inl (ValueError OverflowError)) =
   (5 \<le> length data \<and> list_all (\<lambda>b. b AND 0x80 \<noteq> 0) (take 5 data))"
  using VarInt_loop_overflow [of 0 data 0 0] cont_at_prefix [of 5 data]
  by (simp add: VarIntEncoder_parse_def)

subsection \<open>The VarLong loop\<close>

text \<open>The same three facts for the loop of \<open>VarLongEncoder.parse\<close>, whose limit is 64.\<close>

lemma VarLong_loop_step:
  "VarLongEncoder_parse_loop data v p s =
     (if \<not> cont_at data s
      then Inr \<lparr>value_r = v OR push_bit p
                     ((if s < length data then sint (data ! s) else 0) AND SEGMENT_BITS),
                size_r = s\<rparr>
      else if 64 \<le> p + 7 then Inl (ValueError OverflowError)
      else VarLongEncoder_parse_loop data
             (v OR push_bit p ((if s < length data then sint (data ! s) else 0) AND SEGMENT_BITS))
             (p + 7) (s + 1))"
  by (subst VarLongEncoder_parse_loop.simps)
     (simp add: ByteEncoder_parse_drop continue_bit_drop Let_def del: push_bit_and)

lemma VarLong_loop_overflow:
  "p < 64 \<Longrightarrow>
   (VarLongEncoder_parse_loop data v p s = Inl (ValueError OverflowError)) =
   (\<forall>k < (70 - p) div 7. cont_at data (s + k))"
proof (induction "64 - p" arbitrary: p v s rule: less_induct)
  case less
  show ?case
  proof (cases "cont_at data s")
    case False
    have "0 < (70 - p) div 7" using less.prems by presburger
    then have "\<not> (\<forall>k < (70 - p) div 7. cont_at data (s + k))"
      using False by (metis add.right_neutral)
    then show ?thesis using False by (subst VarLong_loop_step) simp
  next
    case True
    show ?thesis
    proof (cases "64 \<le> p + 7")
      case big: True
      then have "(70 - p) div 7 = Suc 0" using less.prems by presburger
      then show ?thesis using True big by (subst VarLong_loop_step) simp
    next
      case small: False
      define m where "m = (70 - (p + 7)) div 7"
      have "70 - p = 7 + (70 - (p + 7))" using small by linarith
      then have "(70 - p) div 7 = (7 + (70 - (p + 7))) div 7" by (rule arg_cong)
      then have n: "(70 - p) div 7 = Suc m" unfolding m_def by (simp only: div_add_self1)
      have "64 - (p + 7) < 64 - p" "p + 7 < 64" using small by linarith+
      then have ih: "\<And>v' s'.
          (VarLongEncoder_parse_loop data v' (p + 7) s' = Inl (ValueError OverflowError)) =
          (\<forall>k<m. cont_at data (s' + k))"
        unfolding m_def using less.hyps [of "p + 7"] by blast
      have step: "VarLongEncoder_parse_loop data v p s =
          VarLongEncoder_parse_loop data
            (v OR push_bit p ((if s < length data then sint (data ! s) else 0) AND SEGMENT_BITS))
            (p + 7) (s + 1)"
        using True small by (subst VarLong_loop_step) (simp del: push_bit_and)
      have "(\<forall>k<Suc m. cont_at data (s + k)) = (\<forall>k<m. cont_at data (s + 1 + k))"
        using True by (simp add: All_less_Suc2)
      then show ?thesis unfolding step n ih by simp
    qed
  qed
qed

lemma VarLong_loop_result:
  "p < 64 \<Longrightarrow>
   VarLongEncoder_parse_loop data v p s = Inl (ValueError OverflowError) \<or>
   (\<exists>r. VarLongEncoder_parse_loop data v p s = Inr r)"
proof (induction "64 - p" arbitrary: p v s rule: less_induct)
  case less
  show ?case
  proof (cases "\<not> cont_at data s \<or> 64 \<le> p + 7")
    case True
    then show ?thesis by (subst (1 2) VarLong_loop_step) auto
  next
    case False
    then have "\<not> 64 \<le> p + 7" by simp
    then have "64 - (p + 7) < 64 - p" "p + 7 < 64" by linarith+
    then have "\<And>v' s'.
        VarLongEncoder_parse_loop data v' (p + 7) s' = Inl (ValueError OverflowError) \<or>
        (\<exists>r. VarLongEncoder_parse_loop data v' (p + 7) s' = Inr r)"
      using less.hyps [of "p + 7"] by blast
    then show ?thesis using False by (subst (1 2) VarLong_loop_step) (simp del: push_bit_and)
  qed
qed

lemma VarLong_overflow_iff:
  "(VarLongEncoder_parse data = Inl (ValueError OverflowError)) =
   (10 \<le> length data \<and> list_all (\<lambda>b. b AND 0x80 \<noteq> 0) (take 10 data))"
  using VarLong_loop_overflow [of 0 data 0 0] cont_at_prefix [of 10 data]
  by (simp add: VarLongEncoder_parse_def)

subsection \<open>\<open>int.from_bytes\<close> inverts \<open>int.to_bytes\<close>\<close>

lemma big_endian_Suc:
  "big_endian v (Suc n) = word_of_int (drop_bit (8 * n) v) # big_endian v n"
  by (simp add: big_endian_def)

lemma take_bit_split_byte:
  "take_bit (8 * Suc n) (v::int) = take_bit 8 (drop_bit (8 * n) v) * 2 ^ (8 * n) + take_bit (8 * n) v"
proof -
  have "(0::int) \<le> 2 ^ 8" by simp
  then have "v mod (2 ^ (8 * n) * 2 ^ 8) = 2 ^ (8 * n) * (v div 2 ^ (8 * n) mod 2 ^ 8) + v mod 2 ^ (8 * n)"
    by (rule zmod_zmult2_eq)
  moreover have "(2::int) ^ (8 * Suc n) = 2 ^ (8 * n) * 2 ^ 8" by (simp add: power_add)
  ultimately show ?thesis by (simp only: take_bit_eq_mod drop_bit_eq_div mult.commute)
qed

lemma foldl_big_endian:
  "foldl (\<lambda>acc b. acc * 256 + uint b) acc (big_endian v n) = acc * 2 ^ (8 * n) + take_bit (8 * n) v"
proof (induction n arbitrary: acc)
  case 0
  then show ?case by (simp add: big_endian_def)
next
  case (Suc n)
  have "foldl (\<lambda>acc b. acc * 256 + uint b) acc (big_endian v (Suc n)) =
      (acc * 256 + take_bit 8 (drop_bit (8 * n) v)) * 2 ^ (8 * n) + take_bit (8 * n) v"
    by (simp add: big_endian_Suc Suc.IH uint_word_of_int_eq)
  also have "\<dots> = acc * 2 ^ (8 * Suc n) + take_bit (8 * Suc n) v"
    by (simp only: take_bit_split_byte) (simp add: algebra_simps power_add)
  finally show ?case .
qed

lemma from_bytes_unsigned_big_endian:
  "from_bytes_unsigned (big_endian v n) = take_bit (8 * n) v"
  by (simp add: from_bytes_unsigned_def foldl_big_endian)

lemma length_big_endian: "length (big_endian v n) = n"
  by (simp add: big_endian_def)


lemma take_bit_negative:
  fixes v :: int
  assumes "v < 0" and "- (2 ^ n) \<le> v"
  shows "take_bit n v = v + 2 ^ n"
proof -
  have "0 \<le> v + 2 ^ n" "v + 2 ^ n < 2 ^ n" using assms by simp_all
  then have "(v + 2 ^ n) mod 2 ^ n = v + 2 ^ n" by (rule mod_pos_pos_trivial)
  then show ?thesis by (simp add: take_bit_eq_mod)
qed

lemma from_bytes_big_endian_unsigned:
  assumes "0 \<le> v" and "v < 2 ^ (8 * n)"
  shows "from_bytes (big_endian v n) False = v"
  using assms
  by (simp add: from_bytes_def from_bytes_unsigned_big_endian take_bit_int_eq_self)

lemma from_bytes_big_endian_signed:
  assumes "0 < n" and "- (2 ^ (8 * n - 1)) \<le> v" and "v < 2 ^ (8 * n - 1)"
  shows "from_bytes (big_endian v n) True = v"
proof -
  have p: "(2::int) ^ (8 * n) = 2 * 2 ^ (8 * n - 1)"
    using assms(1) by (simp flip: power_Suc)
  have ne: "big_endian v n \<noteq> []"
    using assms(1) length_big_endian [of v n] by auto
  show ?thesis
  proof (cases "v < 0")
    case True
    then have "take_bit (8 * n) v = v + 2 ^ (8 * n)"
      using assms(2) p by (intro take_bit_negative) simp_all
    then show ?thesis
      using assms(2) p ne
      by (simp add: from_bytes_def from_bytes_unsigned_big_endian length_big_endian)
  next
    case False
    then have "take_bit (8 * n) v = v"
      using assms(3) p by (simp add: take_bit_int_eq_self)
    then show ?thesis
      using assms(3) ne
      by (simp add: from_bytes_def from_bytes_unsigned_big_endian length_big_endian)
  qed
qed

lemma to_bytes_Inr:
  assumes "to_bytes v n s = Inr bs"
  shows "bs = big_endian v n"
    and "s \<Longrightarrow> n = 0 \<Longrightarrow> v = 0"
    and "s \<Longrightarrow> 0 < n \<Longrightarrow> - (2 ^ (8 * n - 1)) \<le> v \<and> v < 2 ^ (8 * n - 1)"
    and "\<not> s \<Longrightarrow> 0 \<le> v \<and> v < 2 ^ (8 * n)"
  using assms by (auto simp: to_bytes_def split: if_splits)

lemma to_bytes_from_bytes:
  assumes "to_bytes v n s = Inr bs"
  shows "from_bytes bs s = v \<and> length bs = n"
proof -
  note f = to_bytes_Inr [OF assms]
  have l: "length bs = n" by (simp add: f(1) length_big_endian)
  have "from_bytes (big_endian v n) s = v"
  proof (cases s)
    case False
    then show ?thesis using f(4) from_bytes_big_endian_unsigned [of v n] by simp
  next
    case True
    show ?thesis
    proof (cases "n = 0")
      case z: True
      then show ?thesis using f(2) True by (simp add: builtin_defs)
    next
      case False
      then show ?thesis using f(3) True from_bytes_big_endian_signed [of n v] by simp
    qed
  qed
  then show ?thesis using l f(1) by simp
qed

subsection \<open>The fixed-width integer codecs\<close>

text \<open>Whatever an integer codec serializes, it parses back, with its width as size.\<close>

lemma to_bytes_take:
  assumes "to_bytes v n s = Inr bs"
  shows "from_bytes (take n bs) s = v"
  using to_bytes_from_bytes [OF assms] by simp

lemma ByteEncoder_roundtrip:
  assumes "ByteEncoder_serialize v = Inr bs"
  shows "ByteEncoder_parse bs = Inr \<lparr>value_r = v, size_r = 1\<rparr>"
proof -
  have "to_bytes v 1 True = Inr bs"
    using assms by (simp add: ByteEncoder_serialize_def split: if_splits)
  then have "from_bytes (take 1 bs) True = v" by (rule to_bytes_take)
  then show ?thesis by (simp only: ByteEncoder_parse_def)
qed

lemma UnsignedByteEncoder_roundtrip:
  assumes "UnsignedByteEncoder_serialize v = Inr bs"
  shows "UnsignedByteEncoder_parse bs = Inr \<lparr>value_r = v, size_r = 1\<rparr>"
proof -
  have "to_bytes v 1 False = Inr bs"
    using assms by (simp add: UnsignedByteEncoder_serialize_def split: if_splits)
  then have "from_bytes (take 1 bs) False = v" by (rule to_bytes_take)
  then show ?thesis by (simp only: UnsignedByteEncoder_parse_def)
qed

lemma ShortEncoder_roundtrip:
  assumes "ShortEncoder_serialize v = Inr bs"
  shows "ShortEncoder_parse bs = Inr \<lparr>value_r = v, size_r = 2\<rparr>"
proof -
  have "to_bytes v 2 True = Inr bs"
    using assms by (simp add: ShortEncoder_serialize_def split: if_splits)
  then have "from_bytes (take 2 bs) True = v" by (rule to_bytes_take)
  then show ?thesis by (simp only: ShortEncoder_parse_def)
qed

lemma UnsignedShortEncoder_roundtrip:
  assumes "UnsignedShortEncoder_serialize v = Inr bs"
  shows "UnsignedShortEncoder_parse bs = Inr \<lparr>value_r = v, size_r = 2\<rparr>"
proof -
  have "to_bytes v 2 False = Inr bs"
    using assms by (simp add: UnsignedShortEncoder_serialize_def split: if_splits)
  then have "from_bytes (take 2 bs) False = v" by (rule to_bytes_take)
  then show ?thesis by (simp only: UnsignedShortEncoder_parse_def)
qed

lemma IntEncoder_roundtrip:
  assumes "IntEncoder_serialize v = Inr bs"
  shows "IntEncoder_parse bs = Inr \<lparr>value_r = v, size_r = 4\<rparr>"
proof -
  have "to_bytes v 4 True = Inr bs"
    using assms by (simp add: IntEncoder_serialize_def split: if_splits)
  then have "from_bytes (take 4 bs) True = v" by (rule to_bytes_take)
  then show ?thesis by (simp only: IntEncoder_parse_def)
qed

lemma LongEncoder_roundtrip:
  assumes "LongEncoder_serialize v = Inr bs"
  shows "LongEncoder_parse bs = Inr \<lparr>value_r = v, size_r = 8\<rparr>"
proof -
  have "to_bytes v 8 True = Inr bs"
    using assms by (simp add: LongEncoder_serialize_def split: if_splits)
  then have "from_bytes (take 8 bs) True = v" by (rule to_bytes_take)
  then show ?thesis by (simp only: LongEncoder_parse_def)
qed

lemma BooleanEncoder_roundtrip:
  "\<exists>bs. BooleanEncoder_serialize b = Inr bs \<and>
        BooleanEncoder_parse bs = Inr \<lparr>value_r = b, size_r = 1\<rparr>"
  by (simp add: BooleanEncoder_serialize_def BooleanEncoder_parse_def builtin_defs)

text \<open>The values that each integer codec serializes without an error.\<close>

lemma integer_serialize_succeeds:
  "(\<exists>bs. ByteEncoder_serialize v = Inr bs) = (- 128 \<le> v \<and> v \<le> 127)"
  "(\<exists>bs. UnsignedByteEncoder_serialize v = Inr bs) = (0 \<le> v \<and> v \<le> 255)"
  "(\<exists>bs. ShortEncoder_serialize v = Inr bs) = (- 32768 \<le> v \<and> v \<le> 23767)"
  "(\<exists>bs. UnsignedShortEncoder_serialize v = Inr bs) = (0 \<le> v \<and> v \<le> 65535)"
  "(\<exists>bs. IntEncoder_serialize v = Inr bs) = (- 2147483648 \<le> v \<and> v \<le> 2147483647)"
  "(\<exists>bs. LongEncoder_serialize v = Inr bs) =
     (- 9223372036854775808 \<le> v \<and> v \<le> 9223372036854775807)"
  by (auto simp: fixed_defs to_bytes_def)

text \<open>The slice-based parsers read only the first bytes of the buffer.\<close>

lemma integer_parse_trailing_bytes:
  "1 \<le> length bs \<Longrightarrow> ByteEncoder_parse (bs @ extra) = ByteEncoder_parse bs"
  "1 \<le> length bs \<Longrightarrow> UnsignedByteEncoder_parse (bs @ extra) = UnsignedByteEncoder_parse bs"
  "2 \<le> length bs \<Longrightarrow> ShortEncoder_parse (bs @ extra) = ShortEncoder_parse bs"
  "2 \<le> length bs \<Longrightarrow> UnsignedShortEncoder_parse (bs @ extra) = UnsignedShortEncoder_parse bs"
  "4 \<le> length bs \<Longrightarrow> IntEncoder_parse (bs @ extra) = IntEncoder_parse bs"
  "8 \<le> length bs \<Longrightarrow> LongEncoder_parse (bs @ extra) = LongEncoder_parse bs"
  by (simp_all add: fixed_defs)

subsection \<open>The size reported by VarInt and VarLong parse\<close>

text \<open>
  The size that the VarInt loop reports is the index of the byte that ends the run:
  every byte before it has the continuation bit, and the byte at that index has not
  (or lies past the end of the buffer).
\<close>

lemma VarInt_loop_size:
  "p < 32 \<Longrightarrow> VarIntEncoder_parse_loop data v p s = Inr r \<Longrightarrow>
   s \<le> size_r r \<and> \<not> cont_at data (size_r r) \<and>
   (\<forall>k. s \<le> k \<and> k < size_r r \<longrightarrow> cont_at data k)"
proof (induction "32 - p" arbitrary: p v s rule: less_induct)
  case less
  show ?case
  proof (cases "cont_at data s")
    case False
    then have "size_r r = s"
      using less.prems(2) by (subst (asm) VarInt_loop_step) auto
    then show ?thesis using False by auto
  next
    case True
    then have small: "\<not> 32 \<le> p + 7"
      using less.prems(2) by (subst (asm) VarInt_loop_step) (auto split: if_splits)
    then have "32 - (p + 7) < 32 - p" "p + 7 < 32" by linarith+
    moreover have "\<exists>v'. VarIntEncoder_parse_loop data v' (p + 7) (s + 1) = Inr r"
      using less.prems(2) True small by (subst (asm) VarInt_loop_step) (auto split: if_splits)
    ultimately have ih: "s + 1 \<le> size_r r \<and> \<not> cont_at data (size_r r) \<and>
        (\<forall>k. s + 1 \<le> k \<and> k < size_r r \<longrightarrow> cont_at data k)"
      using less.hyps [of "p + 7" _ "s + 1"] by blast
    have "cont_at data k" if "s \<le> k" "k < size_r r" for k
    proof (cases "k = s")
      case True
      then show ?thesis using \<open>cont_at data s\<close> by simp
    next
      case False
      then show ?thesis using that ih by simp
    qed
    then show ?thesis using ih by simp
  qed
qed

lemma VarInt_parse_size:
  "VarIntEncoder_parse data = Inr r \<Longrightarrow>
   \<not> cont_at data (size_r r) \<and> (\<forall>k < size_r r. cont_at data k)"
  using VarInt_loop_size [of 0 data 0 0 r] by (simp add: VarIntEncoder_parse_def)

lemma VarLong_loop_size:
  "p < 64 \<Longrightarrow> VarLongEncoder_parse_loop data v p s = Inr r \<Longrightarrow>
   s \<le> size_r r \<and> \<not> cont_at data (size_r r) \<and>
   (\<forall>k. s \<le> k \<and> k < size_r r \<longrightarrow> cont_at data k)"
proof (induction "64 - p" arbitrary: p v s rule: less_induct)
  case less
  show ?case
  proof (cases "cont_at data s")
    case False
    then have "size_r r = s"
      using less.prems(2) by (subst (asm) VarLong_loop_step) auto
    then show ?thesis using False by auto
  next
    case True
    then have small: "\<not> 64 \<le> p + 7"
      using less.prems(2) by (subst (asm) VarLong_loop_step) (auto split: if_splits)
    then have "64 - (p + 7) < 64 - p" "p + 7 < 64" by linarith+
    moreover have "\<exists>v'. VarLongEncoder_parse_loop data v' (p + 7) (s + 1) = Inr r"
      using less.prems(2) True small by (subst (asm) VarLong_loop_step) (auto split: if_splits)
    ultimately have ih: "s + 1 \<le> size_r r \<and> \<not> cont_at data (size_r r) \<and>
        (\<forall>k. s + 1 \<le> k \<and> k < size_r r \<longrightarrow> cont_at data k)"
      using less.hyps [of "p + 7" _ "s + 1"] by blast
    have "cont_at data k" if "s \<le> k" "k < size_r r" for k
    proof (cases "k = s")
      case True
      then show ?thesis using \<open>cont_at data s\<close> by simp
    next
      case False
      then show ?thesis using that ih by simp
    qed
    then show ?thesis using ih by simp
  qed
qed

lemma VarLong_parse_size:
  "VarLongEncoder_parse data = Inr r \<Longrightarrow>
   \<not> cont_at data (size_r r) \<and> (\<forall>k < size_r r. cont_at data k)"
  using VarLong_loop_size [of 0 data 0 0 r] by (simp add: VarLongEncoder_parse_def)

section \<open>The claims of the specification\<close>

text \<open>
  C1. VarInt serialize on the boundary values of the specification. On the code,
  \<open>serialize(0)\<close> and \<open>serialize(127)\<close> are the bytes \<open>[0x00]\<close> and \<open>[0x7F]\<close>; for 128,
  2147483647, the unsigned 32-bit pattern of -1 and -1 itself the loop body hands a
  byte in 128..255 to \<open>ByteEncoder.serialize\<close>, whose range is [-128, 127], and the
  call raises instead of returning the encoding.
\<close>

theorem VarInt_serialize_boundaries:
  "VarIntEncoder_serialize 0 = Inr [0x00] \<and>
   VarIntEncoder_serialize 127 = Inr [0x7F] \<and>
   VarIntEncoder_serialize 128 = Inl (ValueError RangeError) \<and>
   VarIntEncoder_serialize 2147483647 = Inl (ValueError RangeError) \<and>
   VarIntEncoder_serialize 4294967295 = Inl (ValueError RangeError) \<and>
   VarIntEncoder_serialize (- 1) = Inl (ValueError RangeError)"
  by (simp add: varint_defs fixed_defs builtin_defs)

text \<open>
  C2. String round trip for \<open>"a"\<close> and for the euro sign U+20AC. On the code,
  \<open>serialize\<close> gives the prefix 1 and the UTF-8 bytes, and \<open>parse\<close> of those bytes decodes
  from the first byte of the buffer, the prefix itself: the value is the one
  character U+0001 and the size is 1, for both strings.
\<close>

theorem String_roundtrip_values:
  "StringEncoder_serialize [0x61] = Inr [0x01, 0x61] \<and>
   StringEncoder_parse [0x01, 0x61] = Some (Inr \<lparr>value_r = [0x01], size_r = 1\<rparr>) \<and>
   StringEncoder_serialize [0x20AC] = Inr [0x01, 0xE2, 0x82, 0xAC] \<and>
   StringEncoder_parse [0x01, 0xE2, 0x82, 0xAC] =
     Some (Inr \<lparr>value_r = [0x01], size_r = 1\<rparr>)"
  by (simp add: string_defs varint_defs fixed_defs builtin_defs)

text \<open>
  C3. The size that VarInt and VarLong parse report. On the code, the loop leaves
  through \<open>break\<close> before counting the terminating byte: \<open>parse([0x00])\<close> reports size 0
  and \<open>parse([0x80, 0x01])\<close> reports size 1, one less than the bytes consumed.
\<close>

theorem VarInt_parse_reported_size:
  "VarIntEncoder_parse [0x00] = Inr \<lparr>value_r = 0, size_r = 0\<rparr> \<and>
   VarIntEncoder_parse [0x80, 0x01] = Inr \<lparr>value_r = 128, size_r = 1\<rparr> \<and>
   VarLongEncoder_parse [0x00] = Inr \<lparr>value_r = 0, size_r = 0\<rparr> \<and>
   VarLongEncoder_parse [0x80, 0x01] = Inr \<lparr>value_r = 128, size_r = 1\<rparr>"
  by (simp add: varint_defs fixed_defs builtin_defs)

text \<open>
  C4. Position round trip. On the code, \<open>(0, 0, 0)\<close> comes back, with size 8; the
  largest coordinate of a 26/26/12-bit split, \<open>(33554431, 33554431, 2047)\<close>, is
  serialized to 8 bytes that parse to \<open>(2147483584, 268435440, 2047)\<close>: \<open>parse\<close> masks
  overlapping 4-byte windows and never shifts the fields back.
\<close>

theorem Position_roundtrip_values:
  "PositionEncoder_serialize \<lparr>x = 0, y = 0, z = 0\<rparr> = Inr [0, 0, 0, 0, 0, 0, 0, 0] \<and>
   PositionEncoder_parse [0, 0, 0, 0, 0, 0, 0, 0] =
     Inr \<lparr>value_r = \<lparr>x = 0, y = 0, z = 0\<rparr>, size_r = 8\<rparr> \<and>
   PositionEncoder_serialize \<lparr>x = 33554431, y = 33554431, z = 2047\<rparr> =
     Inr [0x7F, 0xFF, 0xFF, 0xDF, 0xFF, 0xFF, 0xF7, 0xFF] \<and>
   PositionEncoder_parse [0x7F, 0xFF, 0xFF, 0xDF, 0xFF, 0xFF, 0xF7, 0xFF] =
     Inr \<lparr>value_r = \<lparr>x = 2147483584, y = 268435440, z = 2047\<rparr>, size_r = 8\<rparr>"
  by (simp add: PositionEncoder_serialize_def PositionEncoder_parse_def builtin_defs upt_rec)

text \<open>
  C5. Round trip of the fixed-width codecs at the extremes. On the code, Long
  round-trips at both extremes and Short at -32768, but \<open>ShortEncoder.serialize(32767)\<close>
  raises, although the two bytes \<open>[0x7F, 0xFF]\<close> parse to 32767.
\<close>

theorem fixed_width_extremes:
  "LongEncoder_serialize (- 9223372036854775808) = Inr [0x80, 0, 0, 0, 0, 0, 0, 0] \<and>
   LongEncoder_parse [0x80, 0, 0, 0, 0, 0, 0, 0] =
     Inr \<lparr>value_r = - 9223372036854775808, size_r = 8\<rparr> \<and>
   LongEncoder_serialize 9223372036854775807 =
     Inr [0x7F, 0xFF, 0xFF, 0xFF, 0xFF, 0xFF, 0xFF, 0xFF] \<and>
   LongEncoder_parse [0x7F, 0xFF, 0xFF, 0xFF, 0xFF, 0xFF, 0xFF, 0xFF] =
     Inr \<lparr>value_r = 9223372036854775807, size_r = 8\<rparr> \<and>
   ShortEncoder_serialize (- 32768) = Inr [0x80, 0] \<and>
   ShortEncoder_parse [0x80, 0] = Inr \<lparr>value_r = - 32768, size_r = 2\<rparr> \<and>
   ShortEncoder_serialize 32767 = Inl (ValueError RangeError) \<and>
   ShortEncoder_parse [0x7F, 0xFF] = Inr \<lparr>value_r = 32767, size_r = 2\<rparr>"
  by (simp add: fixed_defs builtin_defs upt_rec)

text \<open>
  C6. The range of Short serialize. On the code, the check is
  \<open>-32768 <= value <= 23767\<close>: 23767 is the largest value that is serialized, and every
  value from 23768 to 32767 raises RangeError although it lies inside
  [-32768, 32767].
\<close>

theorem Short_serialize_range:
  "ShortEncoder_serialize 23767 = Inr [0x5C, 0xD7] \<and>
   ShortEncoder_serialize 23768 = Inl (ValueError RangeError) \<and>
   (ShortEncoder_serialize v = Inl (ValueError RangeError)) = (v < - 32768 \<or> 23767 < v)"
  by (auto simp add: fixed_defs builtin_defs upt_rec)

text \<open>
  C7. VarInt parse raises OverflowError exactly when the first 5 bytes of the buffer
  all have the continuation bit set, that is, when the run goes on past 5 groups, and
  VarLong parse exactly when the first 10 bytes do. Every other buffer, in particular
  one whose run ends within 5 (respectively 10) groups, is parsed to a value: no other
  error is raised.
\<close>

theorem VarInt_VarLong_overflow:
  "(VarIntEncoder_parse data = Inl (ValueError OverflowError)) =
     (5 \<le> length data \<and> list_all (\<lambda>b. b AND 0x80 \<noteq> 0) (take 5 data)) \<and>
   (VarIntEncoder_parse data = Inl (ValueError OverflowError) \<or>
     (\<exists>r. VarIntEncoder_parse data = Inr r)) \<and>
   (VarLongEncoder_parse data = Inl (ValueError OverflowError)) =
     (10 \<le> length data \<and> list_all (\<lambda>b. b AND 0x80 \<noteq> 0) (take 10 data)) \<and>
   (VarLongEncoder_parse data = Inl (ValueError OverflowError) \<or>
     (\<exists>r. VarLongEncoder_parse data = Inr r))"
proof -
  have "VarIntEncoder_parse data = Inl (ValueError OverflowError) \<or>
      (\<exists>r. VarIntEncoder_parse data = Inr r)"
    unfolding VarIntEncoder_parse_def by (rule VarInt_loop_result) simp
  moreover have "VarLongEncoder_parse data = Inl (ValueError OverflowError) \<or>
      (\<exists>r. VarLongEncoder_parse data = Inr r)"
    unfolding VarLongEncoder_parse_def by (rule VarLong_loop_result) simp
  ultimately show ?thesis
    using VarInt_overflow_iff [of data] VarLong_overflow_iff [of data] by blast
qed

theorem VarInt_VarLong_overflow_witness:
  "VarIntEncoder_parse [0xFF, 0xFF, 0xFF, 0xFF, 0xFF, 0x01] = Inl (ValueError OverflowError) \<and>
   (\<exists>r. VarIntEncoder_parse [0xFF, 0xFF, 0xFF, 0xFF, 0x0F] = Inr r) \<and>
   VarLongEncoder_parse [0xFF, 0xFF, 0xFF, 0xFF, 0xFF, 0xFF, 0xFF, 0xFF, 0xFF, 0xFF, 0x01]
     = Inl (ValueError OverflowError) \<and>
   (\<exists>r. VarLongEncoder_parse [0xFF, 0xFF, 0xFF, 0xFF, 0xFF, 0xFF, 0xFF, 0xFF, 0xFF, 0x01]
     = Inr r)"
  using VarInt_VarLong_overflow [of "[0xFF, 0xFF, 0xFF, 0xFF, 0xFF, 0x01]"]
    VarInt_VarLong_overflow [of "[0xFF, 0xFF, 0xFF, 0xFF, 0x0F]"]
    VarInt_VarLong_overflow
      [of "[0xFF, 0xFF, 0xFF, 0xFF, 0xFF, 0xFF, 0xFF, 0xFF, 0xFF, 0xFF, 0x01]"]
    VarInt_VarLong_overflow
      [of "[0xFF, 0xFF, 0xFF, 0xFF, 0xFF, 0xFF, 0xFF, 0xFF, 0xFF, 0x01]"]
  by auto

text \<open>
  C8. Identifier parse of the encoding of \<open>"stone"\<close>. On the code, the String codec
  decodes the five characters from the first byte of the buffer, which is the length
  prefix 5: the string is U+0005 followed by \<open>"ston"\<close>, the default namespace is put in
  front of it, and the grammar check raises FormatError. The encoding of \<open>"FOO:bar"\<close>
  raises FormatError as well.
\<close>

theorem Identifier_parse_stone:
  "StringEncoder_serialize (lit ''stone'') = Inr [0x05, 0x73, 0x74, 0x6F, 0x6E, 0x65] \<and>
   StringEncoder_parse [0x05, 0x73, 0x74, 0x6F, 0x6E, 0x65] =
     Some (Inr \<lparr>value_r = 5 # lit ''ston'', size_r = 5\<rparr>) \<and>
   IdentifierEncoder_parse [0x05, 0x73, 0x74, 0x6F, 0x6E, 0x65] =
     Some (Inl (ValueError FormatError)) \<and>
   StringEncoder_serialize (lit ''FOO:bar'') =
     Inr [0x07, 0x46, 0x4F, 0x4F, 0x3A, 0x62, 0x61, 0x72] \<and>
   IdentifierEncoder_parse [0x07, 0x46, 0x4F, 0x4F, 0x3A, 0x62, 0x61, 0x72] =
     Some (Inl (ValueError FormatError))"
  by (simp add: IdentifierEncoder_parse_def identifier_match_def namespace_char_def
      name_char_def string_defs varint_defs fixed_defs builtin_defs)

text \<open>
  C9. Trailing bytes after a valid encoding. On the code, \<open>FloatEncoder.parse\<close> hands
  the whole buffer to \<open>struct.unpack(">f", data)\<close>: the 4-byte encoding of 1.0 parses,
  and the same 4 bytes followed by one more byte raise \<open>struct.error\<close>.
\<close>

theorem Float_parse_trailing_bytes:
  "FloatEncoder_parse [0x3F, 0x80, 0x00, 0x00] =
     Inr \<lparr>value_r = 0x3F800000, size_r = 4\<rparr> \<and>
   FloatEncoder_parse [0x3F, 0x80, 0x00, 0x00, 0x00] = Inl StructError"
  by (simp add: FloatEncoder_parse_def from_bytes_unsigned_def)

text \<open>
  C10. The slice-based integer codecs on a buffer shorter than their width. A buffer
  \<open>d1\<close> shorter than 1 byte, \<open>d2\<close> shorter than 2, \<open>d4\<close> shorter than 4 and \<open>d8\<close> shorter
  than 8 bytes is parsed without an error: the value is the integer that
  \<open>int.from_bytes\<close> decodes from the bytes present, which is 0 for the empty buffer,
  and the size is the full width 1, 2, 4 or 8.
\<close>

theorem short_buffer_parse:
  assumes "length d1 < 1" and "length d2 < 2" and "length d4 < 4" and "length d8 < 8"
  shows "ByteEncoder_parse d1 = Inr \<lparr>value_r = 0, size_r = 1\<rparr> \<and>
    UnsignedByteEncoder_parse d1 = Inr \<lparr>value_r = 0, size_r = 1\<rparr> \<and>
    ShortEncoder_parse d2 = Inr \<lparr>value_r = from_bytes d2 True, size_r = 2\<rparr> \<and>
    UnsignedShortEncoder_parse d2 = Inr \<lparr>value_r = from_bytes d2 False, size_r = 2\<rparr> \<and>
    IntEncoder_parse d4 = Inr \<lparr>value_r = from_bytes d4 True, size_r = 4\<rparr> \<and>
    LongEncoder_parse d8 = Inr \<lparr>value_r = from_bytes d8 True, size_r = 8\<rparr> \<and>
    ShortEncoder_parse [] = Inr \<lparr>value_r = 0, size_r = 2\<rparr> \<and>
    UnsignedShortEncoder_parse [] = Inr \<lparr>value_r = 0, size_r = 2\<rparr> \<and>
    IntEncoder_parse [] = Inr \<lparr>value_r = 0, size_r = 4\<rparr> \<and>
    LongEncoder_parse [] = Inr \<lparr>value_r = 0, size_r = 8\<rparr>"
proof -
  have e: "from_bytes [] True = 0" "from_bytes [] False = 0"
    by (simp_all add: builtin_defs)
  have "d1 = []" using assms(1) by simp
  then show ?thesis using assms(2-4) e by (simp add: fixed_defs)
qed

theorem short_buffer_parse_witness:
  "ByteEncoder_parse [] = Inr \<lparr>value_r = 0, size_r = 1\<rparr> \<and>
   UnsignedByteEncoder_parse [] = Inr \<lparr>value_r = 0, size_r = 1\<rparr> \<and>
   ShortEncoder_parse [0xFF] = Inr \<lparr>value_r = - 1, size_r = 2\<rparr> \<and>
   UnsignedShortEncoder_parse [0xFF] = Inr \<lparr>value_r = 255, size_r = 2\<rparr> \<and>
   IntEncoder_parse [0x80, 0x01, 0x02] = Inr \<lparr>value_r = - 8388350, size_r = 4\<rparr> \<and>
   LongEncoder_parse [0x01, 0x00] = Inr \<lparr>value_r = 256, size_r = 8\<rparr>"
proof -
  have h: "length ([] :: bytes) < 1" "length [0xFF :: byte] < 2"
    "length [0x80, 0x01, 0x02 :: byte] < 4" "length [0x01, 0x00 :: byte] < 8"
    by simp_all
  have v: "from_bytes [0xFF] True = - 1" "from_bytes [0xFF] False = 255"
    "from_bytes [0x80, 0x01, 0x02] True = - 8388350" "from_bytes [0x01, 0x00] True = 256"
    by (simp_all add: builtin_defs)
  show ?thesis using short_buffer_parse [OF h] v by simp
qed

end
